theory Spec2Isabelle
  imports Main "HOL-Library.Word"
begin

section \<open>The basic-block cache of MyPinTool.cpp\<close>

text \<open>
  The tool keeps one object of class \<open>BBLCache\<close>: a \<open>std::deque<BBL*>\<close> whose front is
  the most recently inserted block, a \<open>UINT32\<close> bound and three \<open>UINT64\<close> counters.
  The deque is a list whose head is the front. A \<open>BBL*\<close> is only ever compared with
  \<open>==\<close>, so the type of block identifiers is a parameter. The counters are 64-bit
  words: \<open>++\<close> wraps around.
\<close>

type_synonym UINT32 = "32 word"
type_synonym UINT64 = "64 word"

text \<open>An \<open>INT32\<close> is a 32-bit word read in two's complement, with \<open>sint\<close>.\<close>

type_synonym INT32 = "32 word"

record 'a BBLCache =
  blockCache :: "'a list"
  max_size :: UINT32
  bblCount :: UINT64
  nMisses :: UINT64
  nHits :: UINT64

text \<open>The constructor \<open>BBLCache(UINT32 max_size)\<close>: an empty deque, counters at zero.\<close>

definition BBLCache :: "UINT32 \<Rightarrow> 'a BBLCache" where
  "BBLCache n =
     \<lparr>blockCache = [], max_size = n, bblCount = 0, nMisses = 0, nHits = 0\<rparr>"

text \<open>
  \<open>pop\<close> is \<open>blockCache.pop_back()\<close>, which removes the last element of the deque. On an
  empty deque the behaviour of \<open>pop_back\<close> is undefined; that is the result \<open>None\<close>.
\<close>

definition pop :: "'a BBLCache \<Rightarrow> 'a BBLCache option" where
  "pop c =
     (if blockCache c = [] then None
      else Some (c\<lparr>blockCache := butlast (blockCache c)\<rparr>))"

definition get_size :: "'a BBLCache \<Rightarrow> nat" where
  "get_size c = length (blockCache c)"

text \<open>
  The range-for loop of \<open>push\<close>, front to back: at the first block equal to \<open>bbl\<close> it
  increments \<open>nHits\<close>, sets \<open>present\<close> and breaks. The result is the cache and the final
  value of \<open>present\<close>, which starts as \<open>false\<close>.
\<close>

fun push_scan :: "'a \<Rightarrow> 'a list \<Rightarrow> 'a BBLCache \<Rightarrow> 'a BBLCache \<times> bool" where
  "push_scan bbl [] c = (c, False)"
| "push_scan bbl (block # rest) c =
     (if bbl = block then (c\<lparr>nHits := nHits c + 1\<rparr>, True)
      else push_scan bbl rest c)"

text \<open>
  \<open>push\<close>: after the scan, a block that was not present counts as a miss and goes to the
  front; if the deque is then longer than \<open>_max_size\<close> (the \<open>UINT32\<close> is converted to
  \<open>size_t\<close>, which keeps its value), the last element is popped.
\<close>

definition push :: "'a BBLCache \<Rightarrow> 'a \<Rightarrow> 'a BBLCache option" where
  "push c bbl =
     (case push_scan bbl (blockCache c) c of
        (c1, present) \<Rightarrow>
          if \<not> present then
            (let c2 = c1\<lparr>nMisses := nMisses c1 + 1\<rparr>;
                 c3 = c2\<lparr>blockCache := bbl # blockCache c2\<rparr>
             in if get_size c3 > unat (max_size c3) then pop c3 else Some c3)
          else Some c1)"

text \<open>The analysis routine \<open>CountBbl\<close>, on the global cache: count the block, then push it.\<close>

definition CountBbl :: "'a BBLCache \<Rightarrow> 'a \<Rightarrow> 'a BBLCache option" where
  "CountBbl c bbl_addr = push (c\<lparr>bblCount := bblCount c + 1\<rparr>) bbl_addr"

text \<open>
  The instrumented program calls \<open>CountBbl\<close> once for every basic block it executes, in
  program order. \<open>CountBbl_seq\<close> is that sequence of calls.
\<close>

fun CountBbl_seq :: "'a BBLCache \<Rightarrow> 'a list \<Rightarrow> 'a BBLCache option" where
  "CountBbl_seq c [] = Some c"
| "CountBbl_seq c (bbl # bbls) =
     (case CountBbl c bbl of None \<Rightarrow> None | Some c' \<Rightarrow> CountBbl_seq c' bbls)"

text \<open>
  \<open>main\<close> builds the cache with \<open>new BBLCache(KnobSizeN.Value())\<close>. The knob holds an
  \<open>INT32\<close> and the constructor takes a \<open>UINT32\<close>: the implicit conversion yields the
  value modulo \<open>2^32\<close>.
\<close>

definition main_cache :: "INT32 \<Rightarrow> 'a BBLCache" where
  "main_cache n = BBLCache (word_of_int (sint n))"

section \<open>The scan and one call\<close>

lemma push_scan_eq:
  "push_scan bbl blocks c =
     (if bbl \<in> set blocks then (c\<lparr>nHits := nHits c + 1\<rparr>, True) else (c, False))"
  by (induction blocks) auto

lemma push_hit:
  "bbl \<in> set (blockCache c) \<Longrightarrow> push c bbl = Some (c\<lparr>nHits := nHits c + 1\<rparr>)"
  by (simp add: push_def push_scan_eq)

lemma push_miss:
  "bbl \<notin> set (blockCache c) \<Longrightarrow>
   push c bbl =
     Some (c\<lparr>nMisses := nMisses c + 1,
              blockCache :=
                (if length (blockCache c) < unat (max_size c) then bbl # blockCache c
                 else butlast (bbl # blockCache c))\<rparr>)"
  by (simp add: push_def push_scan_eq pop_def get_size_def Let_def)

lemma CountBbl_hit:
  "bbl \<in> set (blockCache c) \<Longrightarrow>
   CountBbl c bbl = Some (c\<lparr>bblCount := bblCount c + 1, nHits := nHits c + 1\<rparr>)"
  by (simp add: CountBbl_def push_hit)

lemma CountBbl_miss:
  "bbl \<notin> set (blockCache c) \<Longrightarrow>
   CountBbl c bbl =
     Some (c\<lparr>bblCount := bblCount c + 1, nMisses := nMisses c + 1,
              blockCache :=
                (if length (blockCache c) < unat (max_size c) then bbl # blockCache c
                 else butlast (bbl # blockCache c))\<rparr>)"
  by (simp add: CountBbl_def push_miss)

lemma CountBbl_total: "\<exists>c'. CountBbl c bbl = Some c'"
  by (cases "bbl \<in> set (blockCache c)") (simp_all add: CountBbl_hit CountBbl_miss)

lemma CountBbl_counters:
  "nHits c + nMisses c = bblCount c \<Longrightarrow> CountBbl c bbl = Some c' \<Longrightarrow>
   nHits c' + nMisses c' = bblCount c'"
  by (cases "bbl \<in> set (blockCache c)") (auto simp: CountBbl_hit CountBbl_miss)

lemma miss_entries_take:
  "length es \<le> m \<Longrightarrow>
   (if length es < m then bbl # es else butlast (bbl # es)) = take m (bbl # es)"
  by (auto simp: butlast_conv_take)

lemma CountBbl_miss_take:
  assumes "bbl \<notin> set (blockCache c)" and "length (blockCache c) \<le> unat (max_size c)"
  shows "CountBbl c bbl =
     Some (c\<lparr>bblCount := bblCount c + 1, nMisses := nMisses c + 1,
              blockCache := take (unat (max_size c)) (bbl # blockCache c)\<rparr>)"
  using CountBbl_miss [OF assms(1)] miss_entries_take [OF assms(2), of bbl] by simp

lemma CountBbl_bounded:
  "length (blockCache c) \<le> unat (max_size c) \<Longrightarrow> CountBbl c bbl = Some c' \<Longrightarrow>
   length (blockCache c') \<le> unat (max_size c') \<and> max_size c' = max_size c"
  by (cases "bbl \<in> set (blockCache c)") (auto simp: CountBbl_hit CountBbl_miss_take)

lemma CountBbl_distinct:
  "distinct (blockCache c) \<Longrightarrow> CountBbl c bbl = Some c' \<Longrightarrow> distinct (blockCache c')"
  by (cases "bbl \<in> set (blockCache c)")
    (auto simp: CountBbl_hit CountBbl_miss distinct_butlast dest: in_set_butlastD)

lemma CountBbl_miss_front:
  assumes "bbl \<notin> set (blockCache c)" and "1 \<le> unat (max_size c)"
  shows "\<exists>c' rest. CountBbl c bbl = Some c' \<and> blockCache c' = bbl # rest"
  using assms by (cases "blockCache c") (auto simp: CountBbl_miss)

section \<open>Sequences of calls\<close>

text \<open>
  The state after the first calls of a sequence is the result of the shorter sequence:
  what holds of the result of every sequence holds after each call.
\<close>

lemma CountBbl_seq_append:
  "CountBbl_seq c (xs @ ys) =
     (case CountBbl_seq c xs of None \<Rightarrow> None | Some c' \<Rightarrow> CountBbl_seq c' ys)"
  by (induction xs arbitrary: c) (auto split: option.splits)

text \<open>
  Every call returns, so a property that the new cache has and every call keeps holds of
  the result of every sequence of calls.
\<close>

lemma CountBbl_seq_invariant:
  assumes "P c"
    and "\<And>c bbl c'. P c \<Longrightarrow> CountBbl c bbl = Some c' \<Longrightarrow> P c'"
  shows "\<exists>c'. CountBbl_seq c bbls = Some c' \<and> P c'"
  using assms(1)
proof (induction bbls arbitrary: c)
  case Nil
  then show ?case by simp
next
  case (Cons bbl bbls)
  obtain c1 where c1: "CountBbl c bbl = Some c1"
    using CountBbl_total [of c bbl] by blast
  with Cons.prems have "P c1" by (rule assms(2))
  then show ?case using Cons.IH c1 by simp
qed

text \<open>
  Blocks that are pairwise distinct and not in the deque are all misses: the deque is the
  first \<open>max_size\<close> elements of the reversed input in front of the old entries.
\<close>

lemma CountBbl_seq_fresh:
  "distinct bbls \<Longrightarrow> set bbls \<inter> set (blockCache c) = {} \<Longrightarrow>
   length (blockCache c) \<le> unat (max_size c) \<Longrightarrow>
   CountBbl_seq c bbls =
     Some (c\<lparr>bblCount := bblCount c + of_nat (length bbls),
              nMisses := nMisses c + of_nat (length bbls),
              blockCache := take (unat (max_size c)) (rev bbls @ blockCache c)\<rparr>)"
proof (induction bbls arbitrary: c)
  case Nil
  then show ?case by simp
next
  case (Cons bbl bbls)
  let ?m = "unat (max_size c)"
  let ?c1 = "c\<lparr>bblCount := bblCount c + 1, nMisses := nMisses c + 1,
                blockCache := take ?m (bbl # blockCache c)\<rparr>"
  from Cons.prems have fresh: "bbl \<notin> set (blockCache c)" by simp
  then have step: "CountBbl c bbl = Some ?c1"
    using Cons.prems(3) by (rule CountBbl_miss_take)
  have "set (blockCache ?c1) \<subseteq> insert bbl (set (blockCache c))"
    using set_take_subset [of ?m "bbl # blockCache c"] by simp
  then have disj: "set bbls \<inter> set (blockCache ?c1) = {}"
    using Cons.prems(1,2) by auto
  have len: "length (blockCache ?c1) \<le> unat (max_size ?c1)" by simp
  have dist: "distinct bbls" using Cons.prems(1) by simp
  note Cons.IH [OF dist disj len]
  then show ?case using step by (simp add: add.assoc)
qed

lemma CountBbl_seq_capacity_zero:
  "max_size c = 0 \<Longrightarrow> blockCache c = [] \<Longrightarrow>
   CountBbl_seq c bbls =
     Some (c\<lparr>bblCount := bblCount c + of_nat (length bbls),
              nMisses := nMisses c + of_nat (length bbls)\<rparr>)"
proof (induction bbls arbitrary: c)
  case Nil
  then show ?case by simp
next
  case (Cons bbl bbls)
  let ?c1 = "c\<lparr>bblCount := bblCount c + 1, nMisses := nMisses c + 1\<rparr>"
  have "CountBbl c bbl = Some ?c1"
    using Cons.prems by (simp add: CountBbl_miss)
  moreover have "CountBbl_seq ?c1 bbls =
     Some (?c1\<lparr>bblCount := bblCount ?c1 + of_nat (length bbls),
              nMisses := nMisses ?c1 + of_nat (length bbls)\<rparr>)"
    using Cons.prems by (intro Cons.IH) simp_all
  ultimately show ?case by (simp add: add.assoc)
qed

text \<open>
  As long as the deque cannot outgrow \<open>max_size\<close> nothing is evicted: the deque holds
  every block recorded, once, and \<open>nMisses\<close> has counted the new ones.
\<close>

lemma CountBbl_seq_no_eviction:
  "distinct (blockCache c) \<Longrightarrow>
   length (blockCache c) + length bbls \<le> unat (max_size c) \<Longrightarrow>
   \<exists>c'. CountBbl_seq c bbls = Some c' \<and>
        set (blockCache c') = set (blockCache c) \<union> set bbls \<and>
        distinct (blockCache c') \<and>
        nMisses c' = nMisses c + of_nat (card (set bbls - set (blockCache c)))"
proof (induction bbls arbitrary: c)
  case Nil
  then show ?case by simp
next
  case (Cons bbl bbls)
  show ?case
  proof (cases "bbl \<in> set (blockCache c)")
    case True
    let ?c1 = "c\<lparr>bblCount := bblCount c + 1, nHits := nHits c + 1\<rparr>"
    have step: "CountBbl c bbl = Some ?c1"
      using True by (rule CountBbl_hit)
    have "distinct (blockCache ?c1)"
      and "length (blockCache ?c1) + length bbls \<le> unat (max_size ?c1)"
      using Cons.prems by simp_all
    from Cons.IH [OF this] obtain c' where c':
      "CountBbl_seq ?c1 bbls = Some c'"
      "set (blockCache c') = set (blockCache c) \<union> set bbls"
      "distinct (blockCache c')"
      "nMisses c' = nMisses c + of_nat (card (set bbls - set (blockCache c)))"
      by auto
    have "set (bbl # bbls) - set (blockCache c) = set bbls - set (blockCache c)"
      using True by auto
    then show ?thesis using step c' True by auto
  next
    case False
    let ?c1 = "c\<lparr>bblCount := bblCount c + 1, nMisses := nMisses c + 1,
                  blockCache := bbl # blockCache c\<rparr>"
    have step: "CountBbl c bbl = Some ?c1"
      using False Cons.prems(2) by (simp add: CountBbl_miss)
    have "distinct (blockCache ?c1)"
      and "length (blockCache ?c1) + length bbls \<le> unat (max_size ?c1)"
      using Cons.prems False by simp_all
    from Cons.IH [OF this] obtain c' where c':
      "CountBbl_seq ?c1 bbls = Some c'"
      "set (blockCache c') = insert bbl (set (blockCache c)) \<union> set bbls"
      "distinct (blockCache c')"
      "nMisses c' = nMisses c + 1 + of_nat (card (set bbls - insert bbl (set (blockCache c))))"
      by auto
    have "set (bbl # bbls) - set (blockCache c) =
          insert bbl (set bbls - insert bbl (set (blockCache c)))"
      using False by auto
    then have "card (set (bbl # bbls) - set (blockCache c)) =
               Suc (card (set bbls - insert bbl (set (blockCache c))))"
      by simp
    then show ?thesis using step c' by (auto simp: add.assoc)
  qed
qed

text \<open>
  Recording the blocks \<open>0, 1, \<dots>, max_size\<close> on an empty deque, one more than fits,
  evicts block 0.
\<close>

lemma CountBbl_seq_upt_overflow:
  assumes "blockCache c = []"
  shows "CountBbl_seq c [0 ..< Suc (unat (max_size c))] =
    Some (c\<lparr>bblCount := bblCount c + of_nat (Suc (unat (max_size c))),
              nMisses := nMisses c + of_nat (Suc (unat (max_size c))),
              blockCache := rev [1 ..< Suc (unat (max_size c))]\<rparr>)"
proof -
  let ?N = "unat (max_size c)"
  have "take ?N (rev [0 ..< Suc ?N]) = rev (drop 1 [0 ..< Suc ?N])"
    by (simp only: take_rev length_upt) simp
  also have "drop 1 [0 ..< Suc ?N] = [1 ..< Suc ?N]"
    by (simp only: drop_upt) simp
  finally have t: "take ?N (rev [0 ..< Suc ?N]) = rev [1 ..< Suc ?N]" .
  have "CountBbl_seq c [0 ..< Suc ?N] =
     Some (c\<lparr>bblCount := bblCount c + of_nat (length [0 ..< Suc ?N]),
              nMisses := nMisses c + of_nat (length [0 ..< Suc ?N]),
              blockCache := take ?N (rev [0 ..< Suc ?N] @ blockCache c)\<rparr>)"
    by (rule CountBbl_seq_fresh) (simp_all add: assms)
  then show ?thesis unfolding assms append_Nil2 t length_upt by simp
qed

section \<open>The capacity that \<open>main\<close> passes\<close>

lemma max_size_main_cache:
  "uint (max_size (main_cache n :: 'a BBLCache)) = sint n mod 2 ^ 32"
  by (simp add: main_cache_def BBLCache_def uint_sint [of n] take_bit_eq_mod)

lemma sint_mod_negative:
  assumes "sint (n :: INT32) < 0"
  shows "sint n mod 2 ^ 32 = sint n + 2 ^ 32" and "2 ^ 31 \<le> sint n mod 2 ^ 32"
proof -
  have lo: "- (2 ^ 31) \<le> sint n" using sint_ge [of n] by simp
  have "sint n mod 2 ^ 32 = (sint n + 2 ^ 32) mod 2 ^ 32" by simp
  also have "\<dots> = sint n + 2 ^ 32"
    using lo assms by (intro mod_pos_pos_trivial) simp_all
  finally show "sint n mod 2 ^ 32 = sint n + 2 ^ 32" .
  then show "2 ^ 31 \<le> sint n mod 2 ^ 32" using lo by simp
qed

section \<open>The claims\<close>

text \<open>
  C1. Whatever the capacity, after any sequence of \<open>CountBbl\<close> calls on a new cache
  \<open>nHits + nMisses = bblCount\<close> (in 64-bit arithmetic, as the counters are). Each call
  returns, adds one to \<open>bblCount\<close> and adds one to exactly one of \<open>nHits\<close> and
  \<open>nMisses\<close>, leaving the other as it was.
\<close>

theorem hits_plus_misses_eq_bblCount:
  "(\<exists>c'. CountBbl_seq (BBLCache n) bbls = Some c' \<and>
         nHits c' + nMisses c' = bblCount c') \<and>
   (\<exists>c'. CountBbl c bbl = Some c' \<and> bblCount c' = bblCount c + 1 \<and>
         (nHits c' = nHits c + 1 \<and> nMisses c' = nMisses c \<or>
          nHits c' = nHits c \<and> nMisses c' = nMisses c + 1))"
proof
  have "nHits (BBLCache n :: 'a BBLCache) + nMisses (BBLCache n :: 'a BBLCache) =
        bblCount (BBLCache n :: 'a BBLCache)"
    by (simp add: BBLCache_def)
  then show "\<exists>c'. CountBbl_seq (BBLCache n) bbls = Some c' \<and>
                  nHits c' + nMisses c' = bblCount c'"
    by (rule CountBbl_seq_invariant [where P = "\<lambda>c. nHits c + nMisses c = bblCount c"])
      (rule CountBbl_counters)
next
  show "\<exists>c'. CountBbl c bbl = Some c' \<and> bblCount c' = bblCount c + 1 \<and>
     (nHits c' = nHits c + 1 \<and> nMisses c' = nMisses c \<or>
      nHits c' = nHits c \<and> nMisses c' = nMisses c + 1)"
    by (cases "bbl \<in> set (blockCache c)") (simp_all add: CountBbl_hit CountBbl_miss)
qed

text \<open>
  C2. With a capacity of at least 1, after any sequence of \<open>CountBbl\<close> calls on a new
  cache \<open>get_size\<close> is at most the capacity. A call on a block that is not in the deque
  returns with the block pushed at the front and, if that made the deque longer than
  \<open>max_size\<close>, without its last (oldest) element: one \<open>pop_back\<close>, in the same call.
\<close>

theorem size_le_capacity:
  assumes "1 \<le> unat n"
  shows "(\<exists>c'. CountBbl_seq (BBLCache n) bbls = Some c' \<and> get_size c' \<le> unat n) \<and>
         (bbl \<notin> set (blockCache c) \<longrightarrow>
            (\<exists>c'. CountBbl c bbl = Some c' \<and>
               blockCache c' =
                 (if length (bbl # blockCache c) > unat (max_size c)
                  then butlast (bbl # blockCache c) else bbl # blockCache c)))"
proof
  let ?P = "\<lambda>c :: 'a BBLCache. length (blockCache c) \<le> unat (max_size c) \<and> max_size c = n"
  have "?P (BBLCache n)" by (simp add: BBLCache_def)
  then have "\<exists>c'. CountBbl_seq (BBLCache n) bbls = Some c' \<and> ?P c'"
  proof (rule CountBbl_seq_invariant)
    fix c :: "'a BBLCache" and bbl c'
    assume "?P c" and "CountBbl c bbl = Some c'"
    then show "?P c'" using CountBbl_bounded [of c bbl c'] by auto
  qed
  then show "\<exists>c'. CountBbl_seq (BBLCache n) bbls = Some c' \<and> get_size c' \<le> unat n"
    by (auto simp: get_size_def)
next
  show "bbl \<notin> set (blockCache c) \<longrightarrow>
            (\<exists>c'. CountBbl c bbl = Some c' \<and>
               blockCache c' =
                 (if length (bbl # blockCache c) > unat (max_size c)
                  then butlast (bbl # blockCache c) else bbl # blockCache c))"
    by (auto simp: CountBbl_miss)
qed

text \<open>
  The capacity 2 after three distinct blocks, and the fourth block evicting the oldest.
\<close>

theorem size_le_capacity_witness:
  "1 \<le> unat (2 :: UINT32) \<and>
   (\<exists>c'. CountBbl_seq (BBLCache 2) [10, 20, 30 :: nat] = Some c' \<and> get_size c' \<le> unat (2 :: UINT32)) \<and>
   (40 :: nat) \<notin> set (blockCache \<lparr>blockCache = [30, 20], max_size = 2, bblCount = 3, nMisses = 3, nHits = 0\<rparr>) \<and>
   (\<exists>c'. CountBbl \<lparr>blockCache = [30, 20], max_size = 2, bblCount = 3, nMisses = 3, nHits = 0\<rparr> (40 :: nat) = Some c' \<and>
      blockCache c' = [40, 30])"
  using size_le_capacity [of 2 "[10, 20, 30 :: nat]" "40 :: nat"
      "\<lparr>blockCache = [30, 20], max_size = 2, bblCount = 3, nMisses = 3, nHits = 0\<rparr>"]
  by (simp add: BBLCache_def CountBbl_hit CountBbl_miss get_size_def)

text \<open>
  C3. A call on a block that is in the deque changes \<open>bblCount\<close> and \<open>nHits\<close> and
  nothing else: the deque keeps its elements and their order. With the deque \<open>[a, b, x]\<close>
  (\<open>a\<close> at the front) and capacity 3, a call on \<open>b\<close> leaves \<open>[a, b, x]\<close>, and a
  following call on a new block \<open>d\<close> evicts \<open>x\<close>: the deque is \<open>[d, a, b]\<close>.
\<close>

theorem hit_leaves_entries:
  "(bbl \<in> set (blockCache c) \<longrightarrow>
      CountBbl c bbl = Some (c\<lparr>bblCount := bblCount c + 1, nHits := nHits c + 1\<rparr>)) \<and>
   (blockCache c = [a, b, x] \<and> max_size c = 3 \<and> d \<notin> set [a, b, x] \<longrightarrow>
      (\<exists>c1 c2. CountBbl c b = Some c1 \<and> blockCache c1 = [a, b, x] \<and>
               CountBbl c1 d = Some c2 \<and> blockCache c2 = [d, a, b]))"
proof (intro conjI impI)
  assume "bbl \<in> set (blockCache c)"
  then show "CountBbl c bbl = Some (c\<lparr>bblCount := bblCount c + 1, nHits := nHits c + 1\<rparr>)"
    by (rule CountBbl_hit)
next
  assume a: "blockCache c = [a, b, x] \<and> max_size c = 3 \<and> d \<notin> set [a, b, x]"
  let ?c1 = "c\<lparr>bblCount := bblCount c + 1, nHits := nHits c + 1\<rparr>"
  have 1: "CountBbl c b = Some ?c1" using a by (simp add: CountBbl_hit)
  have 2: "blockCache ?c1 = [a, b, x]" using a by simp
  have "d \<notin> set (blockCache ?c1)" using a by simp
  from CountBbl_miss [OF this]
  have "\<exists>c2. CountBbl ?c1 d = Some c2 \<and> blockCache c2 = [d, a, b]"
    using a by simp
  with 1 2 show "\<exists>c1 c2. CountBbl c b = Some c1 \<and> blockCache c1 = [a, b, x] \<and>
               CountBbl c1 d = Some c2 \<and> blockCache c2 = [d, a, b]"
    by blast
qed

text \<open>
  The blocks 1, 2, 3 with a hit on 2 and then a miss on 4.
\<close>

theorem hit_leaves_entries_witness:
  "(2 :: nat) \<in> set (blockCache \<lparr>blockCache = [1, 2, 3], max_size = 3, bblCount = 3, nMisses = 3, nHits = 0\<rparr>) \<and>
   CountBbl \<lparr>blockCache = [1, 2, 3 :: nat], max_size = 3, bblCount = 3, nMisses = 3, nHits = 0\<rparr> 2 =
     Some \<lparr>blockCache = [1, 2, 3], max_size = 3, bblCount = 4, nMisses = 3, nHits = 1\<rparr> \<and>
   (4 :: nat) \<notin> set [1, 2, 3] \<and>
   (\<exists>c1 c2. CountBbl \<lparr>blockCache = [1, 2, 3 :: nat], max_size = 3, bblCount = 3, nMisses = 3, nHits = 0\<rparr> 2 = Some c1 \<and>
      blockCache c1 = [1, 2, 3] \<and> CountBbl c1 4 = Some c2 \<and> blockCache c2 = [4, 1, 2])"
  using hit_leaves_entries [of 2
      "\<lparr>blockCache = [1, 2, 3 :: nat], max_size = 3, bblCount = 3, nMisses = 3, nHits = 0\<rparr>" 1 2 3 4]
  by (simp add: CountBbl_hit CountBbl_miss)

text \<open>
  C4. A call on a block that is not in the deque, in any cache state: \<open>nMisses\<close> goes up
  by one, \<open>nHits\<close> stays, and the block is pushed at the front of the deque
  (\<open>push_front\<close>) before the overflow check runs on the longer deque. The second conjunct
  gives the deque the call leaves: the block in front of the old entries, without the last
  element when the old deque was already as long as \<open>max_size\<close>. (When \<open>max_size\<close> is 0
  and the deque is empty, the element popped is the block itself; with a capacity of at
  least 1 the block is the head of the result, which is \<open>CountBbl_miss_front\<close>.)
\<close>

theorem miss_inserts_front:
  assumes "bbl \<notin> set (blockCache c)"
  shows "CountBbl c bbl =
           (let c1 = c\<lparr>bblCount := bblCount c + 1, nMisses := nMisses c + 1,
                        blockCache := bbl # blockCache c\<rparr>
            in if get_size c1 > unat (max_size c1) then pop c1 else Some c1) \<and>
         (\<exists>c'. CountBbl c bbl = Some c' \<and> nMisses c' = nMisses c + 1 \<and> nHits c' = nHits c \<and>
            blockCache c' =
              (if length (blockCache c) < unat (max_size c) then bbl # blockCache c
               else butlast (bbl # blockCache c)))"
  using assms by (simp add: CountBbl_miss get_size_def pop_def Let_def)

text \<open>
  A miss on block 40 in a cache of capacity 5 holding 30 and 20.
\<close>

theorem miss_inserts_front_witness:
  "(40 :: nat) \<notin> set (blockCache \<lparr>blockCache = [30, 20], max_size = 5, bblCount = 3, nMisses = 3, nHits = 0\<rparr>) \<and>
   CountBbl \<lparr>blockCache = [30, 20], max_size = 5, bblCount = 3, nMisses = 3, nHits = 0\<rparr> (40 :: nat) =
     Some \<lparr>blockCache = [40, 30, 20], max_size = 5, bblCount = 4, nMisses = 4, nHits = 0\<rparr>"
  using miss_inserts_front [of 40
      "\<lparr>blockCache = [30, 20 :: nat], max_size = 5, bblCount = 3, nMisses = 3, nHits = 0\<rparr>"]
  by (simp add: get_size_def)

text \<open>
  C5. With capacity \<open>N \<ge> 1\<close>, \<open>N + 1\<close> pairwise distinct blocks recorded in order on a
  new cache leave the first one absent, all the others present, and \<open>get_size = N\<close>.
\<close>

theorem eviction_exactness:
  assumes "1 \<le> unat n" and "distinct xs" and "length xs = unat n + 1"
  shows "\<exists>c'. CountBbl_seq (BBLCache n) xs = Some c' \<and>
           hd xs \<notin> set (blockCache c') \<and> set (tl xs) \<subseteq> set (blockCache c') \<and>
           get_size c' = unat n"
proof -
  obtain x xs' where xs: "xs = x # xs'" and len: "length xs' = unat n"
    using assms(3) by (cases xs) auto
  have "CountBbl_seq (BBLCache n) xs =
     Some ((BBLCache n)\<lparr>bblCount := bblCount (BBLCache n :: 'a BBLCache) + of_nat (length xs),
              nMisses := nMisses (BBLCache n :: 'a BBLCache) + of_nat (length xs),
              blockCache := take (unat (max_size (BBLCache n :: 'a BBLCache)))
                 (rev xs @ blockCache (BBLCache n :: 'a BBLCache))\<rparr>)"
    using assms(2) by (intro CountBbl_seq_fresh) (simp_all add: BBLCache_def)
  moreover have "take (unat n) (rev xs) = rev xs'"
    using len by (simp add: xs)
  ultimately have "CountBbl_seq (BBLCache n) xs =
     Some ((BBLCache n)\<lparr>bblCount := of_nat (length xs), nMisses := of_nat (length xs),
              blockCache := rev xs'\<rparr>)"
    by (simp add: BBLCache_def)
  then show ?thesis
    using assms(2) len by (simp add: xs get_size_def)
qed

text \<open>
  Capacity 2 and the blocks 10, 20, 30.
\<close>

theorem eviction_exactness_witness:
  "1 \<le> unat (2 :: UINT32) \<and> distinct [10, 20, 30 :: nat] \<and>
   length [10, 20, 30 :: nat] = unat (2 :: UINT32) + 1 \<and>
   (\<exists>c'. CountBbl_seq (BBLCache 2) [10, 20, 30 :: nat] = Some c' \<and>
        hd [10, 20, 30 :: nat] \<notin> set (blockCache c') \<and>
        set (tl [10, 20, 30 :: nat]) \<subseteq> set (blockCache c') \<and> get_size c' = unat (2 :: UINT32))"
  using eviction_exactness [of 2 "[10, 20, 30 :: nat]"]
  by (simp add: BBLCache_def CountBbl_hit CountBbl_miss get_size_def)

text \<open>
  C6 (scenario A). Capacity 2 and the calls \<open>A, B, A, C\<close> with \<open>A\<close>, \<open>B\<close>, \<open>C\<close>
  distinct: \<open>bblCount = 4\<close>, \<open>nHits = 1\<close>, \<open>nMisses = 3\<close>, and the deque is \<open>[C, B]\<close>,
  front first, of size 2.
\<close>

theorem scenario_A:
  assumes "A \<noteq> B" and "A \<noteq> C" and "B \<noteq> C"
  shows "CountBbl_seq (BBLCache 2) [A, B, A, C] =
           Some \<lparr>blockCache = [C, B], max_size = 2, bblCount = 4, nMisses = 3, nHits = 1\<rparr> \<and>
         get_size \<lparr>blockCache = [C, B], max_size = 2, bblCount = 4, nMisses = 3, nHits = 1\<rparr> = 2"
  using assms by (simp add: BBLCache_def CountBbl_hit CountBbl_miss get_size_def)

text \<open>
  Scenario A on the blocks 1, 2, 3.
\<close>

theorem scenario_A_witness:
  "(1 :: nat) \<noteq> 2 \<and> (1 :: nat) \<noteq> 3 \<and> (2 :: nat) \<noteq> 3 \<and>
   CountBbl_seq (BBLCache 2) [1, 2, 1, 3 :: nat] =
     Some \<lparr>blockCache = [3, 2], max_size = 2, bblCount = 4, nMisses = 3, nHits = 1\<rparr>"
  using scenario_A [of "1 :: nat" 2 3] by simp

text \<open>
  C7 (scenario B). Capacity 1 and the calls \<open>X, Y, X\<close> with \<open>X \<noteq> Y\<close>: after \<open>X, Y\<close> the
  deque is \<open>[Y]\<close>, so \<open>Y\<close> has evicted \<open>X\<close>; the last call is a miss again, and the
  result is \<open>bblCount = 3\<close>, \<open>nHits = 0\<close>, \<open>nMisses = 3\<close> and the deque \<open>[X]\<close> of size 1.
\<close>

theorem scenario_B:
  assumes "X \<noteq> Y"
  shows "CountBbl_seq (BBLCache 1) [X, Y] =
           Some \<lparr>blockCache = [Y], max_size = 1, bblCount = 2, nMisses = 2, nHits = 0\<rparr> \<and>
         CountBbl_seq (BBLCache 1) [X, Y, X] =
           Some \<lparr>blockCache = [X], max_size = 1, bblCount = 3, nMisses = 3, nHits = 0\<rparr> \<and>
         get_size \<lparr>blockCache = [X], max_size = 1, bblCount = 3, nMisses = 3, nHits = 0\<rparr> = 1"
  using assms by (simp add: BBLCache_def CountBbl_hit CountBbl_miss get_size_def)

text \<open>
  Scenario B on the blocks 1 and 2.
\<close>

theorem scenario_B_witness:
  "(1 :: nat) \<noteq> 2 \<and>
   CountBbl_seq (BBLCache 1) [1, 2, 1 :: nat] =
     Some \<lparr>blockCache = [1], max_size = 1, bblCount = 3, nMisses = 3, nHits = 0\<rparr>"
  using scenario_B [of "1 :: nat" 2] by simp

text \<open>
  C8. Whatever the capacity, after any sequence of \<open>CountBbl\<close> calls on a new cache the
  deque holds no block twice: a block is pushed only when the scan did not find it.
\<close>

theorem entries_distinct:
  "\<exists>c'. CountBbl_seq (BBLCache n) bbls = Some c' \<and> distinct (blockCache c')"
proof -
  have "distinct (blockCache (BBLCache n :: 'a BBLCache))"
    by (simp add: BBLCache_def)
  then show ?thesis
    by (rule CountBbl_seq_invariant [where P = "\<lambda>c. distinct (blockCache c)"])
      (rule CountBbl_distinct)
qed

text \<open>
  C9. With capacity 0, after any sequence of calls on a new cache the deque is empty
  (\<open>get_size = 0\<close>), \<open>nHits\<close> is 0 and \<open>nMisses\<close> is the number of calls: every call
  is a miss. In each of the states such a cache goes through, the call pushes the block
  on the empty deque and pops it again at once.
\<close>

theorem capacity_zero_always_misses:
  "CountBbl_seq (BBLCache 0) bbls =
     Some \<lparr>blockCache = [], max_size = 0, bblCount = of_nat (length bbls),
           nMisses = of_nat (length bbls), nHits = 0\<rparr> \<and>
   map_option get_size (CountBbl_seq (BBLCache 0) bbls) = Some 0 \<and>
   CountBbl \<lparr>blockCache = [], max_size = 0, bblCount = k, nMisses = k, nHits = 0\<rparr> bbl =
     pop \<lparr>blockCache = [bbl], max_size = 0, bblCount = k + 1, nMisses = k + 1, nHits = 0\<rparr> \<and>
   pop \<lparr>blockCache = [bbl], max_size = 0, bblCount = k + 1, nMisses = k + 1, nHits = 0\<rparr> =
     Some \<lparr>blockCache = [], max_size = 0, bblCount = k + 1, nMisses = k + 1, nHits = 0\<rparr>"
proof -
  have "CountBbl_seq (BBLCache 0) bbls =
     Some \<lparr>blockCache = [], max_size = 0, bblCount = of_nat (length bbls),
           nMisses = of_nat (length bbls), nHits = 0 :: UINT64\<rparr>"
    using CountBbl_seq_capacity_zero [of "BBLCache 0 :: 'a BBLCache" bbls]
    by (simp add: BBLCache_def)
  then show ?thesis
    by (simp add: get_size_def CountBbl_miss pop_def)
qed

text \<open>
  C10, as the code has it. A negative knob value \<open>n\<close> becomes the capacity
  \<open>n mod 2^32\<close>, which is \<open>n + 2^32\<close> and at least \<open>2^31\<close> (4294967295 for \<open>- 1\<close>). For
  every sequence of at most that many calls on the cache \<open>main\<close> builds, nothing is
  evicted: the deque holds exactly the distinct blocks recorded, and \<open>nMisses\<close> is their
  number.
\<close>

theorem negative_capacity_no_eviction:
  assumes "sint n < 0" and "int (length (bbls :: 'a list)) \<le> sint n mod 2 ^ 32"
  shows "uint (max_size (main_cache n :: 'a BBLCache)) = sint n mod 2 ^ 32 \<and>
         2 ^ 31 \<le> sint n mod 2 ^ 32 \<and>
         (\<exists>c'. CountBbl_seq (main_cache n) bbls = Some c' \<and>
              set (blockCache c') = set bbls \<and> get_size c' = card (set bbls) \<and>
              unat (nMisses c') = card (set bbls))"
proof (intro conjI)
  let ?c = "main_cache n :: 'a BBLCache"
  show m: "uint (max_size ?c) = sint n mod 2 ^ 32"
    by (rule max_size_main_cache)
  show "2 ^ 31 \<le> sint n mod 2 ^ 32"
    using assms(1) by (rule sint_mod_negative)
  have empty: "blockCache ?c = []" and zero: "nMisses ?c = 0"
    by (simp_all add: main_cache_def BBLCache_def)
  have "int (length bbls) \<le> int (unat (max_size ?c))"
    using assms(2) m by (simp only: uint_nat)
  then have le: "length bbls \<le> unat (max_size ?c)"
    by (simp only: of_nat_le_iff)
  have "distinct (blockCache ?c)"
    and "length (blockCache ?c) + length bbls \<le> unat (max_size ?c)"
    using le by (simp_all add: empty)
  from CountBbl_seq_no_eviction [OF this] obtain c' where c':
    "CountBbl_seq ?c bbls = Some c'" "set (blockCache c') = set bbls"
    "distinct (blockCache c')" "nMisses c' = of_nat (card (set bbls))"
    by (auto simp: empty zero)
  have "card (set bbls) \<le> length bbls" by (rule card_length)
  also have "\<dots> \<le> unat (max_size ?c)" by (rule le)
  also have "\<dots> < 2 ^ 32" using unsigned_less [of "max_size ?c"] by simp
  finally have "card (set bbls) < 2 ^ 64" by simp
  then have "unat (nMisses c') = card (set bbls)"
    using of_nat_inverse [of "card (set bbls)" "nMisses c'"] c'(4) by simp
  moreover have "get_size c' = card (set bbls)"
    using distinct_card [OF c'(3)] by (simp add: get_size_def c'(2))
  ultimately show "\<exists>c'. CountBbl_seq ?c bbls = Some c' \<and>
              set (blockCache c') = set bbls \<and> get_size c' = card (set bbls) \<and>
              unat (nMisses c') = card (set bbls)"
    using c'(1,2) by blast
qed

text \<open>
  The knob value \<open>- 1\<close> and the calls 7, 8, 7.
\<close>

theorem negative_capacity_no_eviction_witness:
  "sint (- 1 :: INT32) < 0 \<and> int (length [7, 8, 7 :: nat]) \<le> sint (- 1 :: INT32) mod 2 ^ 32 \<and>
   uint (max_size (main_cache (- 1) :: nat BBLCache)) = 4294967295 \<and>
   (\<exists>c'. CountBbl_seq (main_cache (- 1)) [7, 8, 7 :: nat] = Some c' \<and>
        set (blockCache c') = set [7, 8, 7] \<and> get_size c' = card (set [7, 8, 7 :: nat]) \<and>
        unat (nMisses c') = card (set [7, 8, 7 :: nat]))"
  using negative_capacity_no_eviction [of "- 1" "[7, 8, 7 :: nat]"]
  by simp

text \<open>
  C10 as it is stated, with "fewer than \<open>2^32\<close> calls" for every negative value, fails
  for the knob value \<open>- 2^31\<close>: the capacity is \<open>2^31\<close>, and the \<open>2^31 + 1\<close> calls on the
  distinct blocks \<open>0, \<dots>, 2^31\<close> evict block 0.
\<close>

theorem negative_capacity_evicts:
  "sint (- 2147483648 :: INT32) < 0 \<and>
   length [0 ..< 2147483649] < 2 ^ 32 \<and>
   0 \<in> set [0 ..< 2147483649] \<and>
   map_option blockCache (CountBbl_seq (main_cache (- 2147483648)) [0 ..< 2147483649]) =
     Some (rev [1 ..< 2147483649]) \<and>
   0 \<notin> set (rev [1 ..< 2147483649])"
proof -
  let ?c = "main_cache (- 2147483648) :: nat BBLCache"
  have m: "unat (max_size ?c) = 2147483648"
    by (simp add: main_cache_def BBLCache_def)
  have "blockCache ?c = []"
    by (simp add: main_cache_def BBLCache_def)
  from CountBbl_seq_upt_overflow [OF this]
  have "map_option blockCache (CountBbl_seq ?c [0 ..< Suc 2147483648]) =
     Some (rev [1 ..< Suc 2147483648])"
    unfolding m by simp
  moreover have "Suc 2147483648 = 2147483649" by simp
  ultimately have "map_option blockCache (CountBbl_seq ?c [0 ..< 2147483649]) =
     Some (rev [1 ..< 2147483649])"
    by (simp only:)
  then show ?thesis by simp
qed

end
